theory Spec2Isabelle
  imports Main
begin

section \<open>The throttle of \<open>hooks/throttle.ts\<close>\<close>

text \<open>
  \<open>throttle(func, wait)\<close> returns a wrapper \<open>throttled\<close> with a \<open>cancel\<close> method.
  The closure holds three variables, \<open>timeoutId\<close>, \<open>lastArgs\<close> and \<open>lastCallTime\<close>;
  it reads the clock (\<open>Date.now()\<close>), registers and clears one-shot timers with the host
  (\<open>setTimeout\<close>, \<open>clearTimeout\<close>) and invokes \<open>func\<close>.

  The embedding passes all of that as one explicit state:
  \<^item> the three closure variables, under their source names;
  \<^item> \<open>timers\<close>, the host's registry of timers that are scheduled and have neither fired
    nor been cleared: the handle, the delay given to \<open>setTimeout\<close>, and the \<open>this\<close> that
    the arrow function captured (the callback reads everything else from the closure
    variables when it runs);
  \<^item> \<open>next_handle\<close>, the host's supply of fresh timer handles;
  \<^item> \<open>calls\<close>, the log of \<open>func.apply(this, args)\<close> invocations, oldest first.

  The wrapped function is taken to return normally. In the runs of events below it does
  not call the wrapper or \<open>cancel\<close> while it runs, so that an invocation is an entry in
  the log and nothing more. In the leading-edge branch \<open>func.apply\<close> is the last statement
  (line 29), so a wrapped function that calls the wrapper from there acts like later
  events of the run. In the timer callback line 37 still follows \<open>func.apply\<close> (line 36):
  that case is \<open>timer_callback_reentrant\<close> below.

  Clock readings are inputs of each step. \<open>Date.now()\<close> returns an integral number of
  milliseconds and \<open>wait\<close> is taken integral too, so the numbers are \<open>int\<close> (JavaScript
  computes exactly on integers of this size). A handle returned by \<open>setTimeout\<close> is
  always truthy (a positive integer in a browser, an object in Node), so the test
  \<open>if (timeoutId)\<close> is \<open>timeoutId \<noteq> None\<close>; \<open>lastArgs\<close> is an array, truthy even when
  empty, so \<open>if (lastArgs)\<close> is \<open>lastArgs \<noteq> None\<close>.
\<close>

type_synonym handle = nat

record ('c, 'a) world =
  timeoutId :: "handle option"
  lastArgs :: "'a option"
  lastCallTime :: int
  timers :: "(handle \<times> int \<times> 'c) list"
  next_handle :: handle
  calls :: "('c \<times> 'a) list"

text \<open>The state right after \<open>throttle(func, wait)\<close> returns (lines 15 to 17).\<close>

definition init :: "('c, 'a) world" where
  "init = \<lparr>timeoutId = None, lastArgs = None, lastCallTime = 0,
           timers = [], next_handle = 1, calls = []\<rparr>"

subsection \<open>The host: timers and the wrapped function\<close>

definition setTimeout :: "int \<Rightarrow> 'c \<Rightarrow> ('c, 'a) world \<Rightarrow> handle \<times> ('c, 'a) world" where
  "setTimeout delay this s =
     (next_handle s,
      s\<lparr>timers := timers s @ [(next_handle s, delay, this)],
        next_handle := Suc (next_handle s)\<rparr>)"

definition clearTimeout :: "handle \<Rightarrow> ('c, 'a) world \<Rightarrow> ('c, 'a) world" where
  "clearTimeout h s = s\<lparr>timers := filter (\<lambda>t. fst t \<noteq> h) (timers s)\<rparr>"

definition func_apply :: "'c \<Rightarrow> 'a \<Rightarrow> ('c, 'a) world \<Rightarrow> ('c, 'a) world" where
  "func_apply this args s = s\<lparr>calls := calls s @ [(this, args)]\<rparr>"

subsection \<open>The wrapper, the timer callback and \<open>cancel\<close>\<close>

text \<open>Line 21: \<open>remaining = wait - (now - lastCallTime)\<close>.\<close>

definition remaining :: "int \<Rightarrow> int \<Rightarrow> ('c, 'a) world \<Rightarrow> int" where
  "remaining wait now s = wait - (now - lastCallTime s)"

text \<open>Line 23: the test of the leading-edge branch.\<close>

definition leading_edge :: "int \<Rightarrow> int \<Rightarrow> ('c, 'a) world \<Rightarrow> bool" where
  "leading_edge wait now s = (remaining wait now s \<le> 0 \<or> remaining wait now s > wait)"

text \<open>Lines 24 to 27, and 44 to 47 in \<open>cancel\<close>: clear the pending timer, if any.\<close>

definition clear_pending :: "('c, 'a) world \<Rightarrow> ('c, 'a) world" where
  "clear_pending s =
     (case timeoutId s of
        Some h \<Rightarrow> (clearTimeout h s)\<lparr>timeoutId := None\<rparr>
      | None \<Rightarrow> s)"

text \<open>Lines 19 to 41: one call of the wrapper, at clock reading \<open>now\<close>.\<close>

definition throttled :: "int \<Rightarrow> int \<Rightarrow> 'c \<Rightarrow> 'a \<Rightarrow> ('c, 'a) world \<Rightarrow> ('c, 'a) world" where
  "throttled wait now this args s =
     (if leading_edge wait now s then
        func_apply this args ((clear_pending s)\<lparr>lastCallTime := now\<rparr>)
      else if timeoutId s = None then
        (case setTimeout (remaining wait now s) this (s\<lparr>lastArgs := Some args\<rparr>) of
           (h, s') \<Rightarrow> s'\<lparr>timeoutId := Some h\<rparr>)
      else s)"

text \<open>Lines 32 to 39: the body of the arrow function, run at clock reading \<open>now\<close>.\<close>

definition timer_callback :: "int \<Rightarrow> 'c \<Rightarrow> ('c, 'a) world \<Rightarrow> ('c, 'a) world" where
  "timer_callback now this s =
     (let s1 = s\<lparr>lastCallTime := now, timeoutId := None\<rparr> in
      case lastArgs s1 of
        Some args \<Rightarrow> (func_apply this args s1)\<lparr>lastArgs := None\<rparr>
      | None \<Rightarrow> s1)"

text \<open>
  The host fires the timer with handle \<open>h\<close>: a timer that is not registered (it was
  cleared, or it fired already) never runs; a registered one leaves the registry and its
  callback runs.
\<close>

definition fire :: "int \<Rightarrow> handle \<Rightarrow> ('c, 'a) world \<Rightarrow> ('c, 'a) world" where
  "fire now h s =
     (case find (\<lambda>t. fst t = h) (timers s) of
        None \<Rightarrow> s
      | Some (_, _, this) \<Rightarrow> timer_callback now this (clearTimeout h s))"

text \<open>Lines 43 to 50.\<close>

definition cancel :: "('c, 'a) world \<Rightarrow> ('c, 'a) world" where
  "cancel s = (clear_pending s)\<lparr>lastArgs := None, lastCallTime := 0\<rparr>"

subsection \<open>Runs\<close>

text \<open>
  What can happen to a wrapper: it is called, the host fires a timer, or \<open>cancel\<close> is
  called. The event loop runs these one at a time. Clock readings are not constrained:
  \<open>Date.now()\<close> is the wall clock, which can be set back.
\<close>

datatype ('c, 'a) event = Call int 'c 'a | Fire int handle | Cancel

fun step :: "int \<Rightarrow> ('c, 'a) event \<Rightarrow> ('c, 'a) world \<Rightarrow> ('c, 'a) world" where
  "step wait (Call now this args) s = throttled wait now this args s"
| "step wait (Fire now h) s = fire now h s"
| "step wait Cancel s = cancel s"

fun exec :: "int \<Rightarrow> ('c, 'a) event list \<Rightarrow> ('c, 'a) world \<Rightarrow> ('c, 'a) world" where
  "exec wait [] s = s"
| "exec wait (e # es) s = exec wait es (step wait e s)"

definition run :: "int \<Rightarrow> ('c, 'a) event list \<Rightarrow> ('c, 'a) world" where
  "run wait evs = exec wait evs init"

subsection \<open>A wrapped function that calls the wrapper\<close>

text \<open>
  Lines 32 to 39 again, for a wrapped function that calls the wrapper or \<open>cancel\<close> while
  it runs. These calls are synchronous and each reads the clock itself; \<open>inner\<close> lists
  them in the order they happen (a \<open>Call\<close> or \<open>Cancel\<close> each: no timer fires while the
  callback runs). A call among them that takes the leading-edge branch invokes the
  wrapped function in turn, and what that invocation calls comes next in the list. The
  assignment of line 37 runs after all of them. With \<open>inner = []\<close> this is
  \<open>timer_callback\<close>.
\<close>

definition timer_callback_reentrant ::
  "int \<Rightarrow> ('c, 'a) event list \<Rightarrow> int \<Rightarrow> 'c \<Rightarrow> ('c, 'a) world \<Rightarrow> ('c, 'a) world" where
  "timer_callback_reentrant wait inner now this s =
     (let s1 = s\<lparr>lastCallTime := now, timeoutId := None\<rparr> in
      case lastArgs s1 of
        Some args \<Rightarrow> (exec wait inner (func_apply this args s1))\<lparr>lastArgs := None\<rparr>
      | None \<Rightarrow> s1)"

definition fire_reentrant ::
  "int \<Rightarrow> ('c, 'a) event list \<Rightarrow> int \<Rightarrow> handle \<Rightarrow> ('c, 'a) world \<Rightarrow> ('c, 'a) world" where
  "fire_reentrant wait inner now h s =
     (case find (\<lambda>t. fst t = h) (timers s) of
        None \<Rightarrow> s
      | Some (_, _, this) \<Rightarrow> timer_callback_reentrant wait inner now this (clearTimeout h s))"

subsection \<open>Agreement of the closure and the host\<close>

text \<open>
  The closure and the host agree: the registry holds the timer of \<open>timeoutId\<close> and no
  other, its handle is older than every handle to come, and arguments are stored for it.
\<close>

definition consistent :: "('c, 'a) world \<Rightarrow> bool" where
  "consistent s =
     (case timeoutId s of
        None \<Rightarrow> timers s = []
      | Some h \<Rightarrow> map fst (timers s) = [h] \<and> h < next_handle s \<and> lastArgs s \<noteq> None)"

subsection \<open>Observations on runs\<close>

text \<open>Whether the host still holds the timer with handle \<open>h\<close>.\<close>

definition registered :: "handle \<Rightarrow> ('c, 'a) world \<Rightarrow> bool" where
  "registered h s = (find (\<lambda>t. fst t = h) (timers s) \<noteq> None)"

text \<open>The \<open>this\<close> and the arguments of the wrapper calls of a run, in order.\<close>

fun call_args :: "('c, 'a) event list \<Rightarrow> ('c \<times> 'a) list" where
  "call_args [] = []"
| "call_args (Call now this args # es) = (this, args) # call_args es"
| "call_args (Fire now h # es) = call_args es"
| "call_args (Cancel # es) = call_args es"

text \<open>The readings of \<open>Date.now()\<close> along a run, in order.\<close>

fun clock_readings :: "('c, 'a) event list \<Rightarrow> int list" where
  "clock_readings [] = []"
| "clock_readings (Call now this args # es) = now # clock_readings es"
| "clock_readings (Fire now h # es) = now # clock_readings es"
| "clock_readings (Cancel # es) = clock_readings es"

text \<open>
  The value of \<open>lastCallTime\<close> at each invocation of the wrapped function along a run:
  a step invokes it exactly when the log grows.
\<close>

fun fired_times :: "int \<Rightarrow> ('c, 'a) event list \<Rightarrow> ('c, 'a) world \<Rightarrow> int list" where
  "fired_times wait [] s = []"
| "fired_times wait (e # es) s =
     (if calls (step wait e s) = calls s then [] else [lastCallTime (step wait e s)])
       @ fired_times wait es (step wait e s)"



fun is_call :: "('c, 'a) event \<Rightarrow> bool" where
  "is_call (Call now this args) = True"
| "is_call (Fire now h) = False"
| "is_call Cancel = False"

section \<open>Basic facts\<close>


lemma consistent_init: "consistent init"
  by (simp add: consistent_def init_def)

lemma clear_pending_consistent:
  "consistent s \<Longrightarrow> timers (clear_pending s) = [] \<and> timeoutId (clear_pending s) = None"
  by (cases "timeoutId s")
     (auto simp: consistent_def clear_pending_def clearTimeout_def map_eq_Cons_conv)

lemma consistent_throttled: "consistent s \<Longrightarrow> consistent (throttled wait now this args s)"
proof (cases "leading_edge wait now s")
  case True
  assume "consistent s"
  from clear_pending_consistent [OF this] True show ?thesis
    by (simp add: throttled_def func_apply_def consistent_def)
next
  case False
  assume "consistent s"
  with False show ?thesis
    by (cases "timeoutId s") (simp_all add: throttled_def setTimeout_def consistent_def)
qed

lemma consistent_cancel: "consistent s \<Longrightarrow> consistent (cancel s)"
  using clear_pending_consistent [of s] by (simp add: cancel_def consistent_def)

lemma consistent_fire: "consistent s \<Longrightarrow> consistent (fire now h s)"
  by (cases "timeoutId s")
     (auto simp: fire_def consistent_def timer_callback_def clearTimeout_def func_apply_def
        map_eq_Cons_conv Let_def split: option.splits if_splits)

lemma consistent_step: "consistent s \<Longrightarrow> consistent (step wait e s)"
  by (cases e) (simp_all add: consistent_throttled consistent_fire consistent_cancel)

lemma consistent_exec: "consistent s \<Longrightarrow> consistent (exec wait evs s)"
  by (induction evs arbitrary: s) (simp_all add: consistent_step)

lemma consistent_run: "consistent (run wait evs)"
  by (simp add: run_def consistent_exec consistent_init)

lemma throttled_leading:
  "leading_edge wait now s \<Longrightarrow>
   throttled wait now this args s = func_apply this args ((clear_pending s)\<lparr>lastCallTime := now\<rparr>)"
  by (simp add: throttled_def)

lemma calls_clear_pending: "calls (clear_pending s) = calls s"
  by (simp add: clear_pending_def clearTimeout_def split: option.splits)

lemma calls_throttled:
  "calls (throttled wait now this args s) =
     (if leading_edge wait now s then calls s @ [(this, args)] else calls s)"
  by (simp add: throttled_def func_apply_def calls_clear_pending setTimeout_def)

lemma lastCallTime_throttled:
  "lastCallTime (throttled wait now this args s) =
     (if leading_edge wait now s then now else lastCallTime s)"
  by (simp add: throttled_def func_apply_def setTimeout_def)

lemma next_handle_step: "next_handle s \<le> next_handle (step wait e s)"
  by (cases e)
     (auto simp: throttled_def setTimeout_def func_apply_def clear_pending_def clearTimeout_def
        fire_def timer_callback_def cancel_def Let_def split: option.splits)

lemma find_registry:
  "map fst ts = [k] \<Longrightarrow> find (\<lambda>t. fst t = h) ts = Some x \<Longrightarrow>
   filter (\<lambda>t. fst t \<noteq> h) ts = []"
  by (auto simp: map_eq_Cons_conv split: if_splits)

text \<open>
  A step leaves the registry, the handle and the stored arguments alone, or empties the
  registry, or registers a fresh handle in an empty registry.
\<close>

lemma step_registry:
  assumes "consistent s"
  shows "(timers (step wait e s) = timers s \<and> lastArgs (step wait e s) = lastArgs s \<and>
            timeoutId (step wait e s) = timeoutId s)
         \<or> timers (step wait e s) = []
         \<or> (\<exists>r this. timers (step wait e s) = [(next_handle s, r, this)])"
proof (cases e)
  case (Call now this args)
  show ?thesis
  proof (cases "leading_edge wait now s")
    case True
    with clear_pending_consistent [OF assms] Call show ?thesis
      by (simp add: throttled_leading func_apply_def)
  next
    case False
    show ?thesis
    proof (cases "timeoutId s")
      case None
      with assms have "timers s = []" by (simp add: consistent_def)
      with None False Call show ?thesis
        by (simp add: throttled_def setTimeout_def)
    next
      case (Some k)
      with False Call show ?thesis by (simp add: throttled_def)
    qed
  qed
next
  case (Fire now h)
  show ?thesis
  proof (cases "find (\<lambda>t. fst t = h) (timers s)")
    case None
    with Fire show ?thesis by (simp add: fire_def)
  next
    case (Some x)
    then have "timers s \<noteq> []" by auto
    with assms obtain k where "map fst (timers s) = [k]"
      by (cases "timeoutId s") (auto simp: consistent_def)
    from find_registry [OF this Some] Some Fire
    have "timers (step wait e s) = []"
      by (cases x)
         (simp add: fire_def timer_callback_def clearTimeout_def func_apply_def Let_def
            split: option.splits)
    then show ?thesis by simp
  qed
next
  case Cancel
  with clear_pending_consistent [OF assms] show ?thesis
    by (simp add: cancel_def)
qed

lemma registered_simps:
  "registered h s = (h \<in> fst ` set (timers s))"
  by (force simp: registered_def find_None_iff)

lemma step_idle:
  assumes "timers s = []" and "timeoutId s = None"
  shows "fire now h s = s" and "timers (cancel s) = []" and "timeoutId (cancel s) = None"
    and "calls (cancel s) = calls s"
  using assms by (simp_all add: fire_def cancel_def clear_pending_def)

lemma fire_unregistered: "\<not> registered h s \<Longrightarrow> fire now h s = s"
  by (cases "find (\<lambda>t. fst t = h) (timers s)") (simp_all add: registered_def fire_def)

lemma fire_scheduled:
  "timers s = [(h, d, c)] \<Longrightarrow> lastArgs s = Some a \<Longrightarrow>
   calls (fire now h s) = calls s @ [(c, a)]"
  by (simp add: fire_def timer_callback_def clearTimeout_def func_apply_def)

lemma timer_callback_reentrant_Nil:
  "timer_callback_reentrant wait [] now this s = timer_callback now this s"
  by (simp add: timer_callback_reentrant_def timer_callback_def Let_def split: option.splits)

lemma fire_reentrant_Nil: "fire_reentrant wait [] now h s = fire now h s"
  by (simp add: fire_reentrant_def fire_def timer_callback_reentrant_Nil
      split: option.splits prod.splits)


section \<open>The pending timer and the stored arguments\<close>

text \<open>
  C1. The invariant reads: \<open>timeoutId\<close> is set if and only if \<open>lastArgs\<close> is set, after
  every step, and the leading-edge branch clears both when it cancels a pending timer.
  The code clears \<open>lastArgs\<close> in \<open>cancel\<close> (line 48) and in the timer callback (line 37),
  but not in the leading-edge branch (lines 24 to 27). A run that shows it, with
  \<open>wait = 100\<close>: a call at 1000 fires, a call at 1030 schedules the timer (due at 1100)
  and stores its arguments, and a call at 1105 arrives before the late timer has run.
  That call takes the leading-edge branch while the timer is pending; afterwards the
  handle is cleared and the arguments of the call at 1030 are still stored. (By
  \<open>consistent_run\<close>, one half of the invariant holds in every state of a run in which the
  wrapped function does not call the wrapper: when the handle is set, arguments are
  stored.)
\<close>

theorem leading_edge_keeps_lastArgs:
  "timeoutId (run 100 [Call 1000 () [''a''], Call 1030 () [''b''], Call 1105 () [''c'']]
       :: (unit, string list) world) = None \<and>
   lastArgs (run 100 [Call 1000 () [''a''], Call 1030 () [''b''], Call 1105 () [''c'']]
       :: (unit, string list) world) = Some [''b''] \<and>
   timeoutId (run 100 [Call 1000 () [''a''], Call 1030 () [''b'']]
       :: (unit, string list) world) = Some 1 \<and>
   leading_edge 100 1105 (run 100 [Call 1000 () [''a''], Call 1030 () [''b'']]
       :: (unit, string list) world)"
  by code_simp

section \<open>The first call, and the call after \<open>cancel\<close>\<close>

text \<open>
  C2, as amended. A fresh wrapper and a wrapper after \<open>cancel()\<close> have \<open>lastCallTime = 0\<close>.
  With \<open>lastCallTime = 0\<close>, a call takes the leading-edge branch exactly when the clock
  reading is at least \<open>wait\<close> (or negative); then the wrapped function is invoked once,
  within the call, with the \<open>this\<close> and the arguments of that call, however long ago the
  wrapper last fired. With \<open>0 \<le> now < wait\<close> the call does not invoke it.
\<close>

theorem zero_lastCallTime_leading_edge:
  assumes "lastCallTime (s :: ('c, 'a) world) = 0"
  shows "lastCallTime (init :: ('c, 'a) world) = 0 \<and>
         lastCallTime (cancel (s' :: ('c, 'a) world)) = 0 \<and>
         leading_edge wait now s = (wait \<le> now \<or> now < 0) \<and>
         calls (throttled wait now this args s) =
           (if wait \<le> now \<or> now < 0 then calls s @ [(this, args)] else calls s)"
proof -
  have "leading_edge wait now s = (wait \<le> now \<or> now < 0)"
    using assms by (auto simp: leading_edge_def remaining_def)
  then show ?thesis
    by (simp add: calls_throttled init_def cancel_def)
qed

text \<open>
  A wrapper that fired at 1000 and was cancelled: the call at 1010, only 10 ms after
  the firing, takes the leading edge.
\<close>

theorem zero_lastCallTime_leading_edge_witness:
  "lastCallTime (cancel (run 100 [Call 1000 () [''a'']]) :: (unit, string list) world) = 0 \<and>
   leading_edge 100 1010 (cancel (run 100 [Call 1000 () [''a'']]) :: (unit, string list) world) \<and>
   calls (throttled 100 1010 () [''b''] (cancel (run 100 [Call 1000 () [''a'']]))) =
     [((), [''a'']), ((), [''b''])]"
proof -
  let ?s = "cancel (run 100 [Call 1000 () [''a'']]) :: (unit, string list) world"
  have c: "calls ?s = [((), [''a''])]"
    by code_simp
  have z: "lastCallTime ?s = 0"
    by (simp add: cancel_def)
  from zero_lastCallTime_leading_edge [OF z, where wait = 100 and now = 1010
      and this = "()" and args = "[''b'']" and s' = init] c z
  show ?thesis by simp
qed

text \<open>
  C2 as stated fails: on a fresh wrapper with \<open>wait = 100\<close>, a first call at clock
  reading 50 is not a leading-edge call. The wrapped function is not invoked; a timer is
  scheduled.
\<close>

theorem first_call_deferred_counterexample:
  "lastCallTime (init :: (unit, string list) world) = 0 \<and> (0::int) \<le> 100 \<and>
   \<not> leading_edge 100 50 (init :: (unit, string list) world) \<and>
   calls (throttled 100 50 () [''a''] init) = [] \<and>
   timers (throttled 100 50 () [''a''] init) = [(1, 50, ())]"
  by code_simp

section \<open>The suppression window\<close>

text \<open>
  C3. The wrapper fires at the leading edge at \<open>t0\<close> and is called again at \<open>t0 + d\<close> with
  \<open>0 < d < wait\<close>; after the leading-edge call no timer is pending. The second call does
  not invoke the wrapped function; it registers one timer with delay \<open>wait - d\<close>, which
  counted from \<open>t0 + d\<close> is due at \<open>t0 + wait\<close>. When that timer fires, at whatever clock
  reading, the wrapped function is invoked once, with the \<open>this\<close> and the arguments of the
  second call, and no timer is left.
\<close>

theorem call_in_window_is_deferred:
  assumes "leading_edge wait t0 (run wait pre)" and "0 < d" and "d < wait"
  shows "let s1 = throttled wait t0 this args (run wait pre);
             s2 = throttled wait (t0 + d) this' args' s1;
             h = next_handle s1
         in calls s1 = calls (run wait pre) @ [(this, args)] \<and>
            calls s2 = calls s1 \<and>
            timeoutId s2 = Some h \<and>
            timers s2 = [(h, wait - d, this')] \<and>
            map (\<lambda>(h, delay, c). t0 + d + delay) (timers s2) = [t0 + wait] \<and>
            calls (fire t h s2) = calls s1 @ [(this', args')] \<and>
            timers (fire t h s2) = []"
proof -
  let ?s0 = "run wait pre"
  let ?s1 = "throttled wait t0 this args ?s0"
  let ?s2 = "throttled wait (t0 + d) this' args' ?s1"
  from clear_pending_consistent [OF consistent_run, of wait pre] assms(1)
  have s1: "timers ?s1 = []" "timeoutId ?s1 = None" "lastCallTime ?s1 = t0"
    "calls ?s1 = calls ?s0 @ [(this, args)]"
    by (simp_all add: throttled_leading func_apply_def calls_clear_pending)
  from assms(2,3) s1(3) have r: "remaining wait (t0 + d) ?s1 = wait - d"
    "\<not> leading_edge wait (t0 + d) ?s1"
    by (simp_all add: remaining_def leading_edge_def)
  from r s1 have s2: "timers ?s2 = [(next_handle ?s1, wait - d, this')]"
    "timeoutId ?s2 = Some (next_handle ?s1)" "lastArgs ?s2 = Some args'" "calls ?s2 = calls ?s1"
    by (simp_all add: throttled_def setTimeout_def)
  from fire_scheduled [OF s2(1,3), of t] s2 s1(4)
  have "calls (fire t (next_handle ?s1) ?s2) = calls ?s1 @ [(this', args')]"
    by simp
  moreover from s2(1,3) have "timers (fire t (next_handle ?s1) ?s2) = []"
    by (simp add: fire_def timer_callback_def clearTimeout_def func_apply_def)
  ultimately show ?thesis
    using s1(4) s2 by (simp add: Let_def)
qed

text \<open>
  \<open>wait = 100\<close>, a first call at 1000 and a second at 1030: the timer has delay 70.
\<close>

theorem call_in_window_is_deferred_witness:
  "leading_edge 100 1000 (run 100 [] :: (unit, string list) world) \<and>
   calls (throttled 100 1030 () [''b''] (throttled 100 1000 () [''a''] (run 100 [])))
     = [((), [''a''])] \<and>
   timers (throttled 100 1030 () [''b''] (throttled 100 1000 () [''a''] (run 100 [])))
     = [(1, 70, ())] \<and>
   calls (fire 1100 1
       (throttled 100 1030 () [''b''] (throttled 100 1000 () [''a''] (run 100 []))))
     = [((), [''a'']), ((), [''b''])]"
proof -
  let ?s0 = "run 100 [] :: (unit, string list) world"
  have s0: "?s0 = init" by (simp add: run_def)
  have l: "leading_edge 100 1000 ?s0"
    by code_simp
  have n: "next_handle (throttled 100 1000 () [''a''] ?s0) = 1" "calls ?s0 = []"
    by code_simp+
  have d: "(0::int) < 30" "(30::int) < 100" by simp_all
  from call_in_window_is_deferred [OF l d, of "()" "[''a'']" "()" "[''b'']" 1100] l
  show ?thesis
    unfolding Let_def n by simp
qed

section \<open>Calls while a timer is pending\<close>

text \<open>
  C4, as amended. A call that arrives while \<open>0 < remaining \<le> wait\<close> and a timer is
  pending changes nothing: the whole state is as before, so the wrapped function is not
  invoked, no timer is scheduled or cleared, and \<open>lastCallTime\<close>, \<open>lastArgs\<close> and
  \<open>timeoutId\<close> keep their values.
\<close>

theorem suppressed_call_noop:
  assumes "0 < remaining wait now s" and "remaining wait now s \<le> wait"
    and "timeoutId s \<noteq> None"
  shows "throttled wait now this args s = s"
  using assms by (auto simp: throttled_def leading_edge_def)

text \<open>
  The call at 1060 with \<open>[c]\<close>, while the timer of the call at 1030 is pending: the
  stored arguments stay \<open>[b]\<close>.
\<close>

theorem suppressed_call_noop_witness:
  "throttled 100 1060 () [''c''] (run 100 [Call 1000 () [''a''], Call 1030 () [''b'']])
     = run 100 [Call 1000 () [''a''], Call 1030 () [''b'']] \<and>
   lastArgs (run 100 [Call 1000 () [''a''], Call 1030 () [''b'']] :: (unit, string list) world)
     = Some [''b'']"
proof -
  let ?s = "run 100 [Call 1000 () [''a''], Call 1030 () [''b'']] :: (unit, string list) world"
  have s: "?s = \<lparr>timeoutId = Some 1, lastArgs = Some [''b''], lastCallTime = 1000,
                  timers = [(1, 70, ())], next_handle = 2, calls = [((), [''a''])]\<rparr>"
    by code_simp
  have "0 < remaining 100 1060 ?s" "remaining 100 1060 ?s \<le> 100" "timeoutId ?s \<noteq> None"
    by (simp_all add: s remaining_def)
  from suppressed_call_noop [OF this, of "()" "[''c'']"] s show ?thesis by simp
qed

text \<open>
  C4 as stated fails: \<open>remaining > 0\<close> includes \<open>remaining > wait\<close>, which line 23 sends to
  the leading-edge branch. The clock is set back to 900 after the calls at 1000 and
  1030: \<open>remaining\<close> is 200, a timer is pending, and the call clears the timer, invokes
  the wrapped function and sets \<open>lastCallTime\<close>.
\<close>

theorem clock_set_back_counterexample:
  "0 < remaining 100 900 (run 100 [Call 1000 () [''a''], Call 1030 () [''b'']]
         :: (unit, string list) world) \<and>
   timeoutId (run 100 [Call 1000 () [''a''], Call 1030 () [''b'']]
         :: (unit, string list) world) = Some 1 \<and>
   calls (throttled 100 900 () [''c''] (run 100 [Call 1000 () [''a''], Call 1030 () [''b'']]))
     = [((), [''a'']), ((), [''c''])] \<and>
   timeoutId (throttled 100 900 () [''c''] (run 100 [Call 1000 () [''a''], Call 1030 () [''b'']]))
     = None \<and>
   lastCallTime (throttled 100 900 () [''c''] (run 100 [Call 1000 () [''a''], Call 1030 () [''b'']]))
     = 900"
  by code_simp

section \<open>One timer, two invocations\<close>







section \<open>Cancelling a deferred call\<close>

lemma unregistered_step:
  assumes "consistent s" and "h < next_handle s" and "\<not> registered h s"
  shows "h < next_handle (step wait e s) \<and> \<not> registered h (step wait e s)"
  using step_registry [OF assms(1), of wait e] next_handle_step [of s wait e] assms(2,3)
  by (auto simp: registered_simps)

lemma unregistered_exec:
  "consistent s \<Longrightarrow> h < next_handle s \<Longrightarrow> \<not> registered h s \<Longrightarrow>
   \<not> registered h (exec wait evs s)"
proof (induction evs arbitrary: s)
  case Nil
  then show ?case by simp
next
  case (Cons e es)
  from unregistered_step [OF Cons.prems, of wait e] consistent_step [OF Cons.prems(1), of wait e]
  show ?case by (simp add: Cons.IH)
qed

lemma idle_exec:
  "timers s = [] \<Longrightarrow> timeoutId s = None \<Longrightarrow> list_all (\<lambda>e. \<not> is_call e) evs \<Longrightarrow>
   calls (exec wait evs s) = calls s"
proof (induction evs arbitrary: s)
  case Nil
  show ?case by simp
next
  case (Cons e es)
  from Cons.prems have "timers (step wait e s) = [] \<and> timeoutId (step wait e s) = None \<and>
      calls (step wait e s) = calls s"
    by (cases e) (simp_all add: step_idle)
  with Cons.IH [of "step wait e s"] Cons.prems(3) show ?case by simp
qed

text \<open>
  C6. A deferred call is scheduled (its handle \<open>h\<close> is in \<open>timeoutId\<close>) and \<open>cancel()\<close> is
  invoked before the timer fires. Then the host holds no timer any more; as long as no
  later wrapper call comes, whatever timers the host fires and however often \<open>cancel()\<close>
  is repeated, the wrapped function is not invoked; and after any later events at all,
  new timers included, the timer \<open>h\<close> is not registered, so that firing it changes
  nothing: the wrapped function is never invoked for that deferred call.
\<close>

theorem cancel_discards_deferred_call:
  assumes "timeoutId (run wait pre) = Some h"
  shows "timers (cancel (run wait pre)) = [] \<and>
         (list_all (\<lambda>e. \<not> is_call e) evs \<longrightarrow>
            calls (exec wait evs (cancel (run wait pre))) = calls (run wait pre)) \<and>
         fire t h (exec wait evs' (cancel (run wait pre))) = exec wait evs' (cancel (run wait pre))"
proof -
  let ?s = "run wait pre"
  have c: "consistent ?s" by (rule consistent_run)
  from clear_pending_consistent [OF c]
  have idle: "timers (cancel ?s) = []" "timeoutId (cancel ?s) = None"
    by (simp_all add: cancel_def)
  have calls: "calls (cancel ?s) = calls ?s"
    by (simp add: cancel_def calls_clear_pending)
  from c assms have "h < next_handle ?s" by (simp add: consistent_def)
  then have "h < next_handle (cancel ?s)"
    by (simp add: cancel_def clear_pending_def clearTimeout_def split: option.splits)
  moreover from idle have "\<not> registered h (cancel ?s)" by (simp add: registered_def)
  ultimately have "\<not> registered h (exec wait evs' (cancel ?s))"
    using unregistered_exec [OF consistent_cancel [OF c]] by blast
  from fire_unregistered [OF this] idle(1) idle_exec [OF idle, of evs wait] calls
  show ?thesis by simp
qed

text \<open>
  The deferred call of 1030 is cancelled. Firing its timer afterwards invokes nothing,
  and after the later calls at 1200 (fires at once) and 1230 (schedules timer 2), firing
  timer 1 still invokes nothing.
\<close>

theorem cancel_discards_deferred_call_witness:
  "timeoutId (run 100 [Call 1000 () [''a''], Call 1030 () [''b'']]
     :: (unit, string list) world) = Some 1 \<and>
   timers (cancel (run 100 [Call 1000 () [''a''], Call 1030 () [''b'']]
     :: (unit, string list) world)) = [] \<and>
   calls (exec 100 [Fire 1100 1, Cancel, Fire 1200 1]
       (cancel (run 100 [Call 1000 () [''a''], Call 1030 () [''b'']])))
     = [((), [''a''])] \<and>
   calls (fire 1300 1 (exec 100 [Call 1200 () [''c''], Call 1230 () [''d'']]
       (cancel (run 100 [Call 1000 () [''a''], Call 1030 () [''b'']]))))
     = [((), [''a'']), ((), [''c''])]"
proof -
  let ?s = "run 100 [Call 1000 () [''a''], Call 1030 () [''b'']] :: (unit, string list) world"
  have s: "?s = \<lparr>timeoutId = Some 1, lastArgs = Some [''b''], lastCallTime = 1000,
                  timers = [(1, 70, ())], next_handle = 2, calls = [((), [''a''])]\<rparr>"
    by code_simp
  have t: "timeoutId ?s = Some 1" by (simp add: s)
  have c: "calls (exec 100 [Call 1200 () [''c''], Call 1230 () [''d'']] (cancel ?s))
             = [((), [''a'']), ((), [''c''])]"
    by code_simp
  have n: "list_all (\<lambda>e. \<not> is_call e) [Fire 1100 1, Cancel, Fire 1200 (1::nat)
             :: (unit, string list) event]"
    by simp
  from cancel_discards_deferred_call [OF t,
      of "[Fire 1100 1, Cancel, Fire 1200 1]" 1300 "[Call 1200 () [''c''], Call 1230 () [''d'']]"]
    t c n s
  show ?thesis by simp
qed

section \<open>Idempotence of \<open>cancel\<close>\<close>

text \<open>
  C7. \<open>cancel()\<close> is idempotent. From any state it leaves the log of invocations of the
  wrapped function as it was, leaves no timer handle and no stored arguments, and sets
  \<open>lastCallTime\<close> to 0; a second \<open>cancel()\<close> right after the first changes nothing. In a
  state that a run of the wrapper reaches, the host's registry is empty afterwards.
\<close>

theorem cancel_idempotent:
  "cancel (cancel s) = cancel s \<and>
   calls (cancel s) = calls s \<and>
   timeoutId (cancel s) = None \<and>
   lastArgs (cancel s) = None \<and>
   lastCallTime (cancel s) = 0 \<and>
   timers (cancel (run wait evs)) = []"
proof -
  have a: "timeoutId (clear_pending s) = None" "calls (clear_pending s) = calls s"
    by (simp_all add: clear_pending_def clearTimeout_def split: option.splits)
  have b: "clear_pending t = t" if "timeoutId t = None" for t :: "('a, 'b) world"
    using that by (simp add: clear_pending_def)
  have "cancel (cancel s) = cancel s"
    using a by (simp add: cancel_def b)
  moreover have "timers (cancel (run wait evs)) = []"
    using clear_pending_consistent [OF consistent_run, of wait evs] by (simp add: cancel_def)
  ultimately show ?thesis
    using a by (simp add: cancel_def)
qed

section \<open>A wait of zero\<close>

lemma leading_edge_zero: "leading_edge 0 now s"
  by (auto simp: leading_edge_def)

lemma step_zero:
  assumes "timers s = []" and "timeoutId s = None"
  shows "timers (step 0 e s) = [] \<and> timeoutId (step 0 e s) = None \<and>
         calls (step 0 e s) = calls s @ call_args [e]"
proof (cases e)
  case (Call now this args)
  with assms show ?thesis
    by (simp add: throttled_leading leading_edge_zero func_apply_def clear_pending_def)
next
  case (Fire now h)
  with assms show ?thesis by (simp add: step_idle)
next
  case Cancel
  with assms show ?thesis by (simp add: step_idle)
qed

lemma call_args_Cons: "call_args (e # es) = call_args [e] @ call_args es"
  by (cases e) simp_all

lemma exec_zero:
  "timers s = [] \<Longrightarrow> timeoutId s = None \<Longrightarrow>
   timers (exec 0 evs s) = [] \<and> timeoutId (exec 0 evs s) = None \<and>
   calls (exec 0 evs s) = calls s @ call_args evs"
proof (induction evs arbitrary: s)
  case Nil
  then show ?case by simp
next
  case (Cons e es)
  from step_zero [OF Cons.prems, of e]
  have a: "timers (step 0 e s) = []" "timeoutId (step 0 e s) = None"
    and b: "calls (step 0 e s) = calls s @ call_args [e]"
    by simp_all
  from Cons.IH [OF a] b show ?case
    by (simp add: call_args_Cons [of e es])
qed

text \<open>
  C8. With \<open>wait = 0\<close> the test of line 23 holds for every clock reading and every state,
  so every call of the wrapper invokes the wrapped function within the call, with the
  \<open>this\<close> and the arguments of that call. Along every run (any calls, timer firings and
  cancels, at any clock readings) no timer is ever registered, and the log of invocations
  is the list of the wrapper calls, in order.
\<close>

theorem zero_wait_never_defers:
  "leading_edge 0 now s \<and>
   calls (throttled 0 now this args s) = calls s @ [(this, args)] \<and>
   timers (run 0 evs) = [] \<and>
   timeoutId (run 0 evs) = None \<and>
   calls (run 0 evs) = call_args evs"
proof -
  have "timers (init :: ('c, 'd) world) = []" "timeoutId (init :: ('c, 'd) world) = None"
    "calls (init :: ('c, 'd) world) = []"
    by (simp_all add: init_def)
  with exec_zero [of "init :: ('c, 'd) world" evs] show ?thesis
    by (simp add: run_def calls_throttled leading_edge_zero)
qed

section \<open>The times of the invocations\<close>

lemma clock_readings_Cons: "clock_readings (e # es) = clock_readings [e] @ clock_readings es"
  by (cases e) simp_all

lemma calls_fire:
  "calls (fire now h s) \<noteq> calls s \<Longrightarrow> lastCallTime (fire now h s) = now"
  by (auto simp: fire_def timer_callback_def func_apply_def clearTimeout_def Let_def
      split: option.splits)

lemma step_fired:
  "calls (step wait e s) \<noteq> calls s \<Longrightarrow> lastCallTime (step wait e s) \<in> set (clock_readings [e])"
proof (cases e)
  case (Call now this args)
  assume "calls (step wait e s) \<noteq> calls s"
  with Call show ?thesis
    by (simp add: calls_throttled lastCallTime_throttled split: if_splits)
next
  case (Fire now h)
  assume "calls (step wait e s) \<noteq> calls s"
  with Fire show ?thesis by (simp add: calls_fire)
next
  case Cancel
  assume "calls (step wait e s) \<noteq> calls s"
  with Cancel show ?thesis by (simp add: cancel_def calls_clear_pending)
qed

lemma fired_times_readings: "set (fired_times wait evs s) \<subseteq> set (clock_readings evs)"
proof (induction evs arbitrary: s)
  case Nil
  show ?case by simp
next
  case (Cons e es)
  from Cons.IH [of "step wait e s"] step_fired [of wait e s] show ?case
    by (auto simp: clock_readings_Cons [of e es])
qed

lemma fired_times_sorted:
  "sorted (clock_readings evs) \<Longrightarrow> sorted (fired_times wait evs s)"
proof (induction evs arbitrary: s)
  case Nil
  show ?case by simp
next
  case (Cons e es)
  from Cons.prems have srt: "sorted (clock_readings [e] @ clock_readings es)"
    by (simp add: clock_readings_Cons [of e es])
  then have rest: "sorted (fired_times wait es (step wait e s))"
    using Cons.IH by (simp add: sorted_append)
  show ?case
  proof (cases "calls (step wait e s) = calls s")
    case True
    with rest show ?thesis by simp
  next
    case False
    from step_fired [OF False] srt
    have "\<forall>y\<in>set (clock_readings es). lastCallTime (step wait e s) \<le> y"
      by (auto simp: sorted_append)
    with fired_times_readings [of wait es "step wait e s"]
    have "\<forall>y\<in>set (fired_times wait es (step wait e s)). lastCallTime (step wait e s) \<le> y"
      by blast
    with False rest show ?thesis by simp
  qed
qed

text \<open>
  C9, as amended. Along a run whose clock readings never decrease, the values of
  \<open>lastCallTime\<close> at the invocations of the wrapped function (leading-edge firings and
  timer firings) never decrease, from any starting state. A wrapper call that does not
  invoke the wrapped function leaves \<open>lastCallTime\<close> as it was.
\<close>

theorem lastCallTime_nondecreasing:
  assumes "sorted (clock_readings evs)"
  shows "sorted (fired_times wait evs s) \<and>
         (calls (throttled wait now this args s') = calls s' \<longrightarrow>
            lastCallTime (throttled wait now this args s') = lastCallTime s')"
  using fired_times_sorted [OF assms]
  by (simp add: calls_throttled lastCallTime_throttled)

text \<open>
  The run of the scenario with \<open>wait = 100\<close>, with a \<open>cancel()\<close> before the last call: the
  wrapped function is invoked at 1000, 1100 and 1150. The call at 1030 is deferred and
  leaves \<open>lastCallTime\<close> at 1000.
\<close>

theorem lastCallTime_nondecreasing_witness:
  "sorted (clock_readings
     [Call 1000 () [''a''], Call 1030 () [''b''], Call 1060 () [''c''], Fire 1100 1,
      Cancel, Call 1150 () [''d'']]) \<and>
   fired_times 100
     [Call 1000 () [''a''], Call 1030 () [''b''], Call 1060 () [''c''], Fire 1100 1,
      Cancel, Call 1150 () [''d'']] init = [1000, 1100, 1150] \<and>
   sorted (fired_times 100
     [Call 1000 () [''a''], Call 1030 () [''b''], Call 1060 () [''c''], Fire 1100 1,
      Cancel, Call 1150 () [''d'']] (init :: (unit, string list) world)) \<and>
   lastCallTime (throttled 100 1030 () [''b''] (run 100 [Call 1000 () [''a'']])) = 1000"
proof -
  let ?evs = "[Call 1000 () [''a''], Call 1030 () [''b''], Call 1060 () [''c''], Fire 1100 1,
      Cancel, Call 1150 () [''d'']] :: (unit, string list) event list"
  let ?s = "run 100 [Call 1000 () [''a'']] :: (unit, string list) world"
  have r: "sorted (clock_readings ?evs)" by simp
  have f: "fired_times 100 ?evs (init :: (unit, string list) world) = [1000, 1100, 1150]"
    by code_simp
  have s: "?s = \<lparr>timeoutId = None, lastArgs = None, lastCallTime = 1000,
                  timers = [], next_handle = 1, calls = [((), [''a''])]\<rparr>"
    by code_simp
  have c: "calls (throttled 100 1030 () [''b''] ?s) = calls ?s"
    by code_simp
  from lastCallTime_nondecreasing [OF r, of 100 init 1030 "()" "[''b'']" ?s] r f s c
  show ?thesis by simp
qed

text \<open>
  C9 as stated fails when the clock is set back: after a firing at 1000, a call at clock
  reading 900 has \<open>remaining = 200 > wait\<close>, takes the leading-edge branch of line 23 and
  sets \<open>lastCallTime\<close> to 900.
\<close>

theorem clock_set_back_lowers_lastCallTime:
  "fired_times 100 [Call 1000 () [''a''], Call 900 () [''b'']]
     (init :: (unit, string list) world) = [1000, 900] \<and>
   \<not> sorted (fired_times 100 [Call 1000 () [''a''], Call 900 () [''b'']]
     (init :: (unit, string list) world))"
  by code_simp

section \<open>The arguments of the deferred call\<close>

lemma scheduled_step:
  assumes "consistent s" and "h < next_handle s"
    and "registered h s \<longrightarrow> timers s = [(h, d, c)] \<and> lastArgs s = Some a"
  shows "h < next_handle (step wait e s) \<and>
         (registered h (step wait e s) \<longrightarrow>
            timers (step wait e s) = [(h, d, c)] \<and> lastArgs (step wait e s) = Some a)"
proof -
  let ?s' = "step wait e s"
  from next_handle_step [of s wait e] assms(2) have n: "h < next_handle ?s'" by simp
  from step_registry [OF assms(1), of wait e]
  consider (same) "timers ?s' = timers s" and "lastArgs ?s' = lastArgs s"
    | (empty) "timers ?s' = []"
    | (fresh) r this where "timers ?s' = [(next_handle s, r, this)]"
    by blast
  then have "registered h ?s' \<longrightarrow> timers ?s' = [(h, d, c)] \<and> lastArgs ?s' = Some a"
  proof cases
    case same
    with assms(3) show ?thesis by (simp add: registered_def)
  next
    case empty
    then show ?thesis by (simp add: registered_def)
  next
    case fresh
    with assms(2) show ?thesis by (simp add: registered_def)
  qed
  with n show ?thesis by simp
qed

lemma scheduled_exec:
  "consistent s \<Longrightarrow> h < next_handle s \<Longrightarrow>
   (registered h s \<longrightarrow> timers s = [(h, d, c)] \<and> lastArgs s = Some a) \<Longrightarrow>
   registered h (exec wait evs s) \<Longrightarrow>
   timers (exec wait evs s) = [(h, d, c)] \<and> lastArgs (exec wait evs s) = Some a"
proof (induction evs arbitrary: s)
  case Nil
  then show ?case by simp
next
  case (Cons e es)
  from scheduled_step [OF Cons.prems(1,2,3), of wait e]
  have "h < next_handle (step wait e s)"
    and "registered h (step wait e s) \<longrightarrow>
           timers (step wait e s) = [(h, d, c)] \<and> lastArgs (step wait e s) = Some a"
    by simp_all
  from Cons.IH [OF consistent_step [OF Cons.prems(1)] this] Cons.prems(4)
  show ?case by simp
qed

text \<open>
  Runs in which the wrapped function does not call the wrapper. A wrapper call in a
  reachable state takes the deferred branch, with \<open>this\<close> and \<open>args\<close>, and schedules the
  timer \<open>h\<close>. After any later events, as long as the timer \<open>h\<close> is still registered,
  the stored arguments are present and are \<open>args\<close>, and when the timer fires the wrapped
  function is invoked with the \<open>this\<close> and \<open>args\<close> of the scheduling call; a timer that is
  not registered any more invokes nothing. In these runs the stale arguments that the
  leading-edge branch leaves behind are never passed to the wrapped function.
\<close>

lemma scheduled_args_without_reentry:
  assumes "\<not> leading_edge wait now (run wait pre)" and "timeoutId (run wait pre) = None"
  shows "let s1 = throttled wait now this args (run wait pre);
             h = next_handle (run wait pre);
             s2 = exec wait evs s1
         in timeoutId s1 = Some h \<and> registered h s1 \<and>
            (if registered h s2
             then lastArgs s2 = Some args \<and> calls (fire t h s2) = calls s2 @ [(this, args)]
             else fire t h s2 = s2)"
proof -
  let ?s0 = "run wait pre"
  let ?s1 = "throttled wait now this args ?s0"
  let ?h = "next_handle ?s0"
  let ?s2 = "exec wait evs ?s1"
  have c0: "consistent ?s0" by (rule consistent_run)
  with assms(2) have e: "timers ?s0 = []" by (simp add: consistent_def)
  from assms e have s1: "timeoutId ?s1 = Some ?h"
    "timers ?s1 = [(?h, remaining wait now ?s0, this)]" "lastArgs ?s1 = Some args"
    "?h < next_handle ?s1"
    by (simp_all add: throttled_def setTimeout_def)
  have c1: "consistent ?s1" by (rule consistent_throttled [OF c0])
  have r1: "registered ?h ?s1" by (simp add: registered_def s1)
  have inv: "registered ?h ?s1 \<longrightarrow>
      timers ?s1 = [(?h, remaining wait now ?s0, this)] \<and> lastArgs ?s1 = Some args"
    by (simp add: s1)
  have "lastArgs ?s2 = Some args \<and> calls (fire t ?h ?s2) = calls ?s2 @ [(this, args)]"
    if "registered ?h ?s2"
    using scheduled_exec [OF c1 s1(4) inv that] fire_scheduled [of ?s2 ?h _ this args t]
    by simp
  with fire_unregistered [of ?h ?s2 t] s1(1) r1 show ?thesis
    by (simp add: Let_def)
qed

text \<open>
  The call at 1030 with \<open>[b]\<close> schedules timer 1; the call at 1060 with \<open>[c]\<close> is
  dropped; the timer fires at 1100 and the wrapped function receives \<open>[b]\<close>.
\<close>

lemma scheduled_args_without_reentry_example:
  "\<not> leading_edge 100 1030 (run 100 [Call 1000 () [''a'']] :: (unit, string list) world) \<and>
   timeoutId (run 100 [Call 1000 () [''a'']] :: (unit, string list) world) = None \<and>
   registered 1 (exec 100 [Call 1060 () [''c'']]
      (throttled 100 1030 () [''b''] (run 100 [Call 1000 () [''a'']]))) \<and>
   calls (fire 1100 1 (exec 100 [Call 1060 () [''c'']]
      (throttled 100 1030 () [''b''] (run 100 [Call 1000 () [''a'']]))))
     = [((), [''a'']), ((), [''b''])]"
proof -
  let ?s0 = "run 100 [Call 1000 () [''a'']] :: (unit, string list) world"
  have s0: "?s0 = \<lparr>timeoutId = None, lastArgs = None, lastCallTime = 1000,
                   timers = [], next_handle = 1, calls = [((), [''a''])]\<rparr>"
    by code_simp
  have l: "\<not> leading_edge 100 1030 ?s0" by (simp add: s0 leading_edge_def remaining_def)
  have t: "timeoutId ?s0 = None" by (simp add: s0)
  let ?s2 = "exec 100 [Call 1060 () [''c'']] (throttled 100 1030 () [''b''] ?s0)"
  have s2: "?s2 = \<lparr>timeoutId = Some 1, lastArgs = Some [''b''], lastCallTime = 1000,
                   timers = [(1, 70, ())], next_handle = 2, calls = [((), [''a''])]\<rparr>"
    by code_simp
  have r: "registered 1 ?s2" unfolding s2 by (simp add: registered_def)
  have c: "calls ?s2 = [((), [''a''])]" unfolding s2 by simp
  have n: "next_handle ?s0 = 1" by (simp add: s0)
  from scheduled_args_without_reentry [OF l t, of "()" "[''b'']" "[Call 1060 () [''c'']]" 1100]
  have "if registered 1 ?s2
        then lastArgs ?s2 = Some [''b''] \<and> calls (fire 1100 1 ?s2) = calls ?s2 @ [((), [''b''])]
        else fire 1100 1 ?s2 = ?s2"
    unfolding Let_def n by blast
  with r have "calls (fire 1100 1 ?s2) = calls ?s2 @ [((), [''b''])]"
    by (simp only: if_True)
  then have "calls (fire 1100 1 ?s2) = [((), [''a'']), ((), [''b''])]"
    by (simp only: c append.simps)
  with l t r show ?thesis by blast
qed

text \<open>
  C10. Whenever the timer callback runs, the stored arguments should be present and be
  those of the call that scheduled the timer. The code breaks this when the wrapped
  function calls the wrapper from inside the timer callback. With \<open>wait = 100\<close>: a call
  at 1000 fires, a call at 1030 with \<open>[b]\<close> schedules timer 1, and timer 1 fires at 1100.
  Its callback sets \<open>lastCallTime = 1100\<close> and clears the handle, then invokes the wrapped
  function with \<open>[b]\<close>, which calls the wrapper with \<open>[x]\<close>: \<open>remaining\<close> is 100, so the
  call stores \<open>[x]\<close> and schedules timer 2 (lines 31 and 32). Back in the callback, line
  37 clears \<open>lastArgs\<close>. Timer 2 is now pending with no stored arguments, and when it
  fires the wrapped function is not invoked: the call with \<open>[x]\<close> is lost.
\<close>

theorem reentrant_call_loses_lastArgs:
  "(let s2 = run 100 [Call 1000 () [''a''], Call 1030 () [''b'']] :: (unit, string list) world;
        s3 = fire_reentrant 100 [Call 1100 () [''x'']] 1100 1 s2
    in lastArgs s2 = Some [''b''] \<and> registered 1 s2 \<and>
       calls s3 = [((), [''a'']), ((), [''b''])] \<and>
       timeoutId s3 = Some 2 \<and> timers s3 = [(2, 100, ())] \<and> registered 2 s3 \<and>
       lastArgs s3 = None \<and>
       calls (fire 1200 2 s3) = [((), [''a'']), ((), [''b''])] \<and>
       timers (fire 1200 2 s3) = [])"
  by code_simp

end
